theory Spec2Isabelle
  imports Complex_Main
begin

section \<open>The relational data source\<close>

text \<open>
  The two tables read by \<^verbatim>\<open>database_utils.py\<close>. A rating event is a row of
  \<^verbatim>\<open>ratings\<close>, a movie a row of \<^verbatim>\<open>movies\<close> (its columns beyond
  \<^verbatim>\<open>movieId\<close> are carried along and never inspected). Tables are lists, so
  that repeated rows and row order are kept. Ratings, and the quotients the
  program computes in double precision, are exact rationals here (the observed
  ratings are 0.5 to 5 in half-point steps).
\<close>

record rating_event =
  r_userId :: int
  r_movieId :: int
  r_rating :: rat
  r_timestamp :: int

record movie =
  m_movieId :: int
  m_title :: string
  m_genres :: string

text \<open>
  The three parameterised reads the recommender issues, and what can happen to
  a read: it executes; it fails while connecting or reading (connection lost,
  table missing); or the engine cannot even be created (\<^verbatim>\<open>create_engine\<close>
  raises on an unparsable port or a missing driver). What happens to which read
  is part of the snapshot.
\<close>

datatype query = Q_movies | Q_similar_recs | Q_all_user_recs

datatype read_status = Executes | Query_fails | Engine_fails

record data_source =
  ratings :: "rating_event list"
  movies :: "movie list"
  status :: "query \<Rightarrow> read_status"

definition unavailable :: "data_source \<Rightarrow> query \<Rightarrow> bool" where
  "unavailable ds q \<longleftrightarrow> status ds q \<noteq> Executes"

text \<open>
  The exceptions that travel through the program: what \<^verbatim>\<open>create_engine\<close>
  raises, and the two that \<^verbatim>\<open>recommendation\<close> meets on a \<^verbatim>\<open>None\<close> frame.
\<close>

datatype error = AttributeError | TypeError | EngineError

text \<open>\<^verbatim>\<open>get_database_connection\<close>: returns the engine or raises.\<close>

definition get_database_connection :: "data_source \<Rightarrow> query \<Rightarrow> error + unit" where
  "get_database_connection ds q =
     (if status ds q = Engine_fails then Inl EngineError else Inr ())"

text \<open>
  \<^verbatim>\<open>execute_query\<close>: line 36 calls \<^verbatim>\<open>get_database_connection()\<close> before
  the \<^verbatim>\<open>try\<close> block, so its exception leaves the function. The \<^verbatim>\<open>try\<close>
  block returns the frame read, the \<^verbatim>\<open>except\<close> block prints and returns
  \<^verbatim>\<open>None\<close>. The argument \<open>run\<close> is the outcome of evaluating the SQL text
  on the tables, \<open>None\<close> when the database raises while evaluating it.
\<close>

definition execute_query :: "data_source \<Rightarrow> query \<Rightarrow> 'a option \<Rightarrow> error + 'a option" where
  "execute_query ds q run =
     (case get_database_connection ds q of
        Inl e \<Rightarrow> Inl e
      | Inr engine \<Rightarrow> (if status ds q = Query_fails then Inr None else Inr run))"

text \<open>
  \<^verbatim>\<open>to_python_type\<close> turns a NumPy integer into the Python integer of the
  same value; identifiers are integers here.
\<close>

definition to_python_type :: "int \<Rightarrow> int" where
  "to_python_type v = v"

section \<open>SQL building blocks\<close>

text \<open>\<^verbatim>\<open>"rating" > 4\<close>\<close>

definition highly_rated :: "rating_event \<Rightarrow> bool" where
  "highly_rated r \<longleftrightarrow> r_rating r > 4"

text \<open>
  \<^verbatim>\<open>SELECT ... FROM ratings WHERE "movieId" = :movie_id AND "rating" > 4\<close>,
  the rows behind both the seed cohort and its size.
\<close>

definition target_events :: "rating_event list \<Rightarrow> int \<Rightarrow> rating_event list" where
  "target_events rs movie_id = filter (\<lambda>r. r_movieId r = movie_id \<and> highly_rated r) rs"

text \<open>
  \<^verbatim>\<open>CAST(a AS FLOAT) / b\<close>: PostgreSQL raises \<^verbatim>\<open>division_by_zero\<close> for a zero
  divisor. The quotient is taken in the rationals.
\<close>

definition sql_div :: "nat \<Rightarrow> nat \<Rightarrow> rat option" where
  "sql_div a b = (if b = 0 then None else Some (of_nat a / of_nat b))"

text \<open>
  \<^verbatim>\<open>GROUP BY "movieId"\<close> with \<^verbatim>\<open>count("userId")\<close>, on the movieId column of the
  rows grouped: one output row per distinct key with the number of rows that
  carry it. SQL leaves the order of the groups open; they are taken in
  ascending key order.
\<close>

definition group_count :: "int list \<Rightarrow> (int \<times> nat) list" where
  "group_count ks = map (\<lambda>k. (k, count_list ks k)) (sort (remdups ks))"

text \<open>
  \<^verbatim>\<open>ORDER BY similarity_score DESC\<close>, as a stable sort (the order among equal
  scores is open in SQL).
\<close>

definition order_by_score_desc :: "(int \<times> rat) list \<Rightarrow> (int \<times> rat) list" where
  "order_by_score_desc rows = sort_key (\<lambda>(k, s). - s) rows"

section \<open>Rating Aggregator\<close>

text \<open>
  The query of \<^verbatim>\<open>get_similar_recs\<close>. The frame returned has the columns
  \<^verbatim>\<open>movieId\<close> and \<^verbatim>\<open>similarity_score\<close>.
\<close>

definition similar_recs_sql :: "rating_event list \<Rightarrow> int \<Rightarrow> (int \<times> rat) list option" where
  "similar_recs_sql rs movie_id =
     (let cohort = map r_userId (target_events rs movie_id);
          total = length cohort;
          co_liked = filter (\<lambda>r. highly_rated r \<and> r_userId r \<in> set cohort) rs;
          groups = group_count (map r_movieId co_liked)
      in map_option (\<lambda>calc. order_by_score_desc (filter (\<lambda>(k, s). s > 1 / 10) calc))
           (those (map (\<lambda>(k, n). map_option (Pair k) (sql_div n total)) groups)))"

definition get_similar_recs :: "data_source \<Rightarrow> int \<Rightarrow> error + (int \<times> rat) list option" where
  "get_similar_recs ds movieId =
     execute_query ds Q_similar_recs (similar_recs_sql (ratings ds) movieId)"

text \<open>
  The query of \<^verbatim>\<open>get_all_user_recs\<close>: \<^verbatim>\<open>frequent_users\<close> keeps one row per
  target event, so the inner join repeats a rating once per matching row;
  \<^verbatim>\<open>HAVING\<close> is applied before the select list is evaluated. The frame
  returned holds rating rows, in table order.
\<close>

definition all_user_recs_sql :: "rating_event list \<Rightarrow> int \<Rightarrow> rating_event list option" where
  "all_user_recs_sql rs movie_id =
     (let frequent_users = map r_userId (target_events rs movie_id);
          joined = [r. r \<leftarrow> rs, fu \<leftarrow> frequent_users, r_userId r = fu, highly_rated r];
          groups = filter (\<lambda>(k, n). n > 0) (group_count (map r_movieId joined))
      in map_option
           (\<lambda>movie_counts.
              let similar_movies = map fst (filter (\<lambda>(k, n, s). s > 1 / 10) movie_counts)
              in [r. r \<leftarrow> rs, sm \<leftarrow> similar_movies, r_movieId r = sm, highly_rated r])
           (those (map (\<lambda>(k, n). map_option (\<lambda>s. (k, n, s)) (sql_div n (length frequent_users)))
                     groups)))"

definition get_all_user_recs :: "data_source \<Rightarrow> int \<Rightarrow> error + rating_event list option" where
  "get_all_user_recs ds movieId =
     execute_query ds Q_all_user_recs (all_user_recs_sql (ratings ds) movieId)"

text \<open>\<^verbatim>\<open>get_movies\<close>: \<^verbatim>\<open>SELECT * FROM movies\<close>.\<close>

definition get_movies :: "data_source \<Rightarrow> error + movie list option" where
  "get_movies ds = execute_query ds Q_movies (Some (movies ds))"

section \<open>Score Combiner\<close>

record combined_row =
  movieId :: int
  similarity_score :: rat
  count :: rat
  score :: rat

record result_row = combined_row +
  title :: string
  genres :: string

text \<open>
  \<^verbatim>\<open>Series.value_counts()\<close>: one entry per distinct value with its number of
  occurrences, most frequent first.
\<close>

definition value_counts :: "int list \<Rightarrow> (int \<times> nat) list" where
  "value_counts ks = sort_key (\<lambda>(k, n). - int n) (map (\<lambda>k. (k, count_list ks k)) (remdups ks))"

text \<open>
  Lines 30 to 32 of \<^verbatim>\<open>app.py\<close>: the counts divided by the number of distinct
  users of the frame, as a frame with the columns \<^verbatim>\<open>movieId\<close> and \<^verbatim>\<open>count\<close>.
  The caller has checked that the frame is not empty, so the divisor is positive.
\<close>

definition all_user_recs :: "rating_event list \<Rightarrow> (int \<times> rat) list" where
  "all_user_recs all_users =
     (let n = length (remdups (map r_userId all_users))
      in map (\<lambda>(k, c). (k, of_nat c / of_nat n)) (value_counts (map r_movieId all_users)))"

text \<open>
  \<^verbatim>\<open>pd.merge(left, right, on='movieId', how='outer')\<close>: the union of the keys in
  ascending order; a key on both sides gives every pairing of its rows, a key
  on one side only gives that side's rows with the other column missing.
\<close>

definition merge_outer ::
  "(int \<times> rat) list \<Rightarrow> (int \<times> rat) list \<Rightarrow> (int \<times> rat option \<times> rat option) list" where
  "merge_outer left right =
     concat (map (\<lambda>k.
        let ls = map snd (filter (\<lambda>row. fst row = k) left);
            rs = map snd (filter (\<lambda>row. fst row = k) right)
        in if rs = [] then map (\<lambda>s. (k, Some s, None)) ls
           else if ls = [] then map (\<lambda>c. (k, None, Some c)) rs
           else [(k, Some s, Some c). s \<leftarrow> ls, c \<leftarrow> rs])
      (sort (remdups (map fst left @ map fst right))))"

text \<open>\<^verbatim>\<open>fillna(0)\<close>\<close>

definition fill0 :: "rat option \<Rightarrow> rat" where
  "fill0 v = (case v of None \<Rightarrow> 0 | Some x \<Rightarrow> x)"

definition fillna :: "(int \<times> rat option \<times> rat option) list \<Rightarrow> (int \<times> rat \<times> rat) list" where
  "fillna rows = map (\<lambda>(k, s, c). (k, fill0 s, fill0 c)) rows"

text \<open>
  Line 39: \<^verbatim>\<open>["score"] = ["similarity_score"] / ["count"].replace(0, 1)\<close>.
  \<^verbatim>\<open>replace(0, 1)\<close> changes the entries equal to 0 and no others.
\<close>

definition with_score :: "(int \<times> rat \<times> rat) list \<Rightarrow> combined_row list" where
  "with_score rows =
     map (\<lambda>(k, s, c).
        \<lparr>movieId = k, similarity_score = s, count = c, score = s / (if c = 0 then 1 else c)\<rparr>)
       rows"

text \<open>
  \<^verbatim>\<open>sort_values("score", ascending=False)\<close>, as a stable sort (pandas fixes no
  order among equal scores for its default sorting algorithm).
\<close>

definition sort_values_score :: "combined_row list \<Rightarrow> combined_row list" where
  "sort_values_score rows = sort_key (\<lambda>row. - score row) rows"

text \<open>Lines 30 to 40: the scored and ranked table \<^verbatim>\<open>combined_recommendations\<close>.\<close>

definition combined_recommendations ::
  "(int \<times> rat) list \<Rightarrow> rating_event list \<Rightarrow> combined_row list" where
  "combined_recommendations similar_user_recs all_users =
     sort_values_score (with_score (fillna
       (merge_outer similar_user_recs (all_user_recs all_users))))"

text \<open>
  \<^verbatim>\<open>pd.merge(left, movies, on="movieId")\<close>, an inner join: the left rows in
  their order, each paired with every movie row of the same key.
\<close>

definition join_movie :: "combined_row \<Rightarrow> movie \<Rightarrow> result_row" where
  "join_movie row mv =
     \<lparr>movieId = movieId row, similarity_score = similarity_score row, count = count row,
      score = score row, title = m_title mv, genres = m_genres mv\<rparr>"

definition merge_inner :: "combined_row list \<Rightarrow> movie list \<Rightarrow> result_row list" where
  "merge_inner left ms =
     [join_movie row mv. row \<leftarrow> left, mv \<leftarrow> ms, m_movieId mv = movieId row]"

section \<open>Memoised reads\<close>

text \<open>
  \<^verbatim>\<open>st.cache_data\<close> keeps the value a function returned for an argument
  (\<^verbatim>\<open>None\<close> included) and returns it again while the entry lives; a call
  that raises stores nothing and the exception goes on to the caller. The store
  is threaded through the calls.
\<close>

record cache =
  movies_cache :: "movie list option option"
  similar_cache :: "int \<rightharpoonup> (int \<times> rat) list option"
  all_user_cache :: "int \<rightharpoonup> rating_event list option"

definition load_movies :: "cache \<Rightarrow> data_source \<Rightarrow> (error + movie list option) \<times> cache" where
  "load_movies c ds =
     (case movies_cache c of
        Some v \<Rightarrow> (Inr v, c)
      | None \<Rightarrow>
          (case get_movies ds of
             Inl e \<Rightarrow> (Inl e, c)
           | Inr v \<Rightarrow> (Inr v, c\<lparr>movies_cache := Some v\<rparr>)))"

definition get_cached_similar_recs ::
  "cache \<Rightarrow> data_source \<Rightarrow> int \<Rightarrow> (error + (int \<times> rat) list option) \<times> cache" where
  "get_cached_similar_recs c ds movie_id =
     (case similar_cache c movie_id of
        Some v \<Rightarrow> (Inr v, c)
      | None \<Rightarrow>
          (case get_similar_recs ds movie_id of
             Inl e \<Rightarrow> (Inl e, c)
           | Inr v \<Rightarrow> (Inr v, c\<lparr>similar_cache := (similar_cache c)(movie_id \<mapsto> v)\<rparr>)))"

definition get_cached_all_user_recs ::
  "cache \<Rightarrow> data_source \<Rightarrow> int \<Rightarrow> (error + rating_event list option) \<times> cache" where
  "get_cached_all_user_recs c ds movie_id =
     (case all_user_cache c movie_id of
        Some v \<Rightarrow> (Inr v, c)
      | None \<Rightarrow>
          (case get_all_user_recs ds movie_id of
             Inl e \<Rightarrow> (Inl e, c)
           | Inr v \<Rightarrow> (Inr v, c\<lparr>all_user_cache := (all_user_cache c)(movie_id \<mapsto> v)\<rparr>)))"

section \<open>The recommend operation\<close>

text \<open>
  The body of the \<^verbatim>\<open>try\<close> block of \<^verbatim>\<open>recommendation\<close>. An exception of
  a read ends the block where it is raised. \<^verbatim>\<open>None.empty\<close> raises
  \<^verbatim>\<open>AttributeError\<close>; \<^verbatim>\<open>pd.merge\<close> raises \<^verbatim>\<open>TypeError\<close> when an
  operand is \<^verbatim>\<open>None\<close>. The left operand of the second merge is evaluated
  before \<^verbatim>\<open>load_movies()\<close> is called.
\<close>

definition recommendation_try ::
  "cache \<Rightarrow> data_source \<Rightarrow> int \<Rightarrow> (error + result_row list) \<times> cache" where
  "recommendation_try c ds movie_id =
     (let movie_id = to_python_type movie_id;
          (read1, c1) = get_cached_similar_recs c ds movie_id
      in case read1 of
           Inl e \<Rightarrow> (Inl e, c1)
         | Inr similar_user_recs \<Rightarrow>
             let (read2, c2) = get_cached_all_user_recs c1 ds movie_id
             in case read2 of
                  Inl e \<Rightarrow> (Inl e, c2)
                | Inr all_users \<Rightarrow>
                    (case all_users of
                       None \<Rightarrow> (Inl AttributeError, c2)
                     | Some au \<Rightarrow>
                         if au \<noteq> [] then
                           (case similar_user_recs of
                              None \<Rightarrow> (Inl TypeError, c2)
                            | Some sur \<Rightarrow>
                                let top = take 10 (combined_recommendations sur au);
                                    (read3, c3) = load_movies c2 ds
                                in (case read3 of
                                      Inl e \<Rightarrow> (Inl e, c3)
                                    | Inr ms \<Rightarrow>
                                        (case ms of
                                           None \<Rightarrow> (Inl TypeError, c3)
                                         | Some mv \<Rightarrow> (Inr (merge_inner top mv), c3))))
                         else (Inr [], c2)))"

text \<open>
  \<^verbatim>\<open>recommendation\<close>: \<^verbatim>\<open>except Exception\<close> reports the error and returns an
  empty frame.
\<close>

definition recommendation :: "cache \<Rightarrow> data_source \<Rightarrow> int \<Rightarrow> result_row list \<times> cache" where
  "recommendation c ds movie_id =
     (case recommendation_try c ds movie_id of
        (Inl e, c') \<Rightarrow> ([], c')
      | (Inr results, c') \<Rightarrow> (results, c'))"

text \<open>
  The store at start-up, the stores that agree with a snapshot, and the passing
  of time: an entry past its time-to-live is dropped, no entry changes.
\<close>

definition fresh :: cache where
  "fresh = \<lparr>movies_cache = None, similar_cache = Map.empty, all_user_cache = Map.empty\<rparr>"

definition cache_ok :: "data_source \<Rightarrow> cache \<Rightarrow> bool" where
  "cache_ok ds c \<longleftrightarrow>
     (\<forall>v. movies_cache c = Some v \<longrightarrow> get_movies ds = Inr v) \<and>
     (\<forall>k v. similar_cache c k = Some v \<longrightarrow> get_similar_recs ds k = Inr v) \<and>
     (\<forall>k v. all_user_cache c k = Some v \<longrightarrow> get_all_user_recs ds k = Inr v)"

definition expired :: "cache \<Rightarrow> cache \<Rightarrow> bool" where
  "expired c c' \<longleftrightarrow>
     (movies_cache c' = None \<or> movies_cache c' = movies_cache c) \<and>
     similar_cache c' \<subseteq>\<^sub>m similar_cache c \<and>
     all_user_cache c' \<subseteq>\<^sub>m all_user_cache c"

text \<open>
  What \<^verbatim>\<open>recommendation\<close> computes from the three values read, with the
  store left out: the right-hand side of the lemma that relates a call on a
  store in agreement with the snapshot to the snapshot alone.
\<close>

definition recommendation_of ::
  "error + (int \<times> rat) list option \<Rightarrow> error + rating_event list option
     \<Rightarrow> error + movie list option \<Rightarrow> error + result_row list" where
  "recommendation_of read1 read2 read3 =
     (case read1 of
        Inl e \<Rightarrow> Inl e
      | Inr similar_user_recs \<Rightarrow>
          (case read2 of
             Inl e \<Rightarrow> Inl e
           | Inr all_users \<Rightarrow>
               (case all_users of
                  None \<Rightarrow> Inl AttributeError
                | Some au \<Rightarrow>
                    if au \<noteq> [] then
                      (case similar_user_recs of
                         None \<Rightarrow> Inl TypeError
                       | Some sur \<Rightarrow>
                           (case read3 of
                              Inl e \<Rightarrow> Inl e
                            | Inr ms \<Rightarrow>
                                (case ms of
                                   None \<Rightarrow> Inl TypeError
                                 | Some mv \<Rightarrow>
                                     Inr (merge_inner (take 10 (combined_recommendations sur au)) mv))))
                    else Inr [])))"

section \<open>Example snapshots\<close>

text \<open>
  Two users who rated movie 10 with 5, one of whom also rated movie 20 with 5,
  and the two frames read for movie 10; the same snapshot with every read
  failing, with no engine, and with movie 20 missing from the movie table; and
  a table in which a user has two high ratings of one movie.
\<close>

definition ev :: "int \<Rightarrow> int \<Rightarrow> rat \<Rightarrow> rating_event" where
  "ev u m r = \<lparr>r_userId = u, r_movieId = m, r_rating = r, r_timestamp = 0\<rparr>"

definition ex_movies :: "movie list" where
  "ex_movies = [\<lparr>m_movieId = 10, m_title = ''Alpha'', m_genres = ''Drama''\<rparr>,
                \<lparr>m_movieId = 20, m_title = ''Beta'', m_genres = ''Comedy''\<rparr>]"

definition ex_ds :: data_source where
  "ex_ds = \<lparr>ratings = [ev 1 10 5, ev 2 10 5, ev 1 20 5, ev 2 30 3],
           movies = ex_movies, status = (\<lambda>q. Executes)\<rparr>"

definition ex_similar :: "(int \<times> rat) list" where
  "ex_similar = [(10, 1), (20, 1 / 2)]"

definition ex_all_users :: "rating_event list" where
  "ex_all_users = [ev 1 10 5, ev 2 10 5, ev 1 20 5]"

definition ex_down :: data_source where
  "ex_down = ex_ds\<lparr>status := (\<lambda>q. Query_fails)\<rparr>"


definition ex_repeat :: data_source where
  "ex_repeat = \<lparr>ratings = [ev 1 10 5, ev 1 20 5, ev 1 20 (9 / 2)],
               movies = ex_movies, status = (\<lambda>q. Executes)\<rparr>"

definition ex_row20 :: combined_row where
  "ex_row20 = \<lparr>movieId = 20, similarity_score = 1 / 2, count = 1 / 2, score = 1\<rparr>"

definition ex_untitled :: data_source where
  "ex_untitled = ex_ds\<lparr>movies := [\<lparr>m_movieId = 10, m_title = ''Alpha'', m_genres = ''Drama''\<rparr>]\<rparr>"

section \<open>Properties of the Rating Aggregator\<close>

lemma execute_query_executes: "\<not> unavailable ds q \<Longrightarrow> execute_query ds q run = Inr run"
  by (cases "status ds q")
    (simp_all add: execute_query_def get_database_connection_def unavailable_def)


lemma execute_query_Engine_fails:
  "status ds q = Engine_fails \<Longrightarrow> execute_query ds q run = Inl EngineError"
  by (simp add: execute_query_def get_database_connection_def)

lemma execute_query_unavailable:
  "unavailable ds q \<Longrightarrow> execute_query ds q run \<noteq> Inr (Some v)"
  by (cases "status ds q")
    (simp_all add: execute_query_def get_database_connection_def unavailable_def)

lemma execute_query_Some: "execute_query ds q run = Inr (Some v) \<Longrightarrow> run = Some v"
  by (cases "status ds q")
    (simp_all add: execute_query_def get_database_connection_def split: if_splits)

lemma count_list_map_filter:
  "count_list (map f xs) k = length (filter (\<lambda>x. f x = k) xs)"
  by (induction xs) auto

lemma set_group_count:
  "set (group_count ks) = (\<lambda>k. (k, count_list ks k)) ` set ks"
  by (simp add: group_count_def)

lemma group_count_pos: "(k, n) \<in> set (group_count ks) \<Longrightarrow> n > 0"
  using count_list_0_iff[of ks k] by (auto simp: set_group_count)

lemma keys_group_count: "map fst (group_count ks) = sort (remdups ks)"
  by (simp add: group_count_def comp_def)

lemma similar_recs_sql_eq:
  "similar_recs_sql rs m =
     Some (order_by_score_desc (filter (\<lambda>(k, s). s > 1 / 10)
       (map (\<lambda>(k, n). (k, of_nat n / of_nat (length (target_events rs m))))
          (group_count (map r_movieId
             (filter (\<lambda>r. highly_rated r \<and> r_userId r \<in> r_userId ` set (target_events rs m)) rs))))))"
proof (cases "target_events rs m = []")
  case True
  then show ?thesis
    by (simp add: similar_recs_sql_def group_count_def)
next
  case False
  then have pos: "length (target_events rs m) \<noteq> 0" by simp
  have th: "those (map (\<lambda>(k, n). map_option (Pair k) (sql_div n (length (target_events rs m)))) g)
      = Some (map (\<lambda>(k, n). (k, of_nat n / of_nat (length (target_events rs m)))) g)" for g
    using pos by (induction g) (auto simp: sql_div_def)
  show ?thesis
    by (simp add: similar_recs_sql_def Let_def th)
qed

lemma set_order_by_score_desc: "set (order_by_score_desc rows) = set rows"
  by (simp add: order_by_score_desc_def)

lemma co_liked_target_count:
  "length (filter (\<lambda>r. r_movieId r = m)
      (filter (\<lambda>r. highly_rated r \<and> r_userId r \<in> r_userId ` set (target_events rs m)) rs))
   = length (target_events rs m)"
proof -
  have "filter (\<lambda>r. r_movieId r = m)
      (filter (\<lambda>r. highly_rated r \<and> r_userId r \<in> r_userId ` set (target_events rs m)) rs)
     = target_events rs m"
    unfolding target_events_def filter_filter
    by (rule filter_cong) auto
  then show ?thesis by simp
qed

lemma target_in_similar:
  assumes "target_events rs m \<noteq> []"
  shows "\<exists>rows. similar_recs_sql rs m = Some rows \<and> (m, 1) \<in> set rows"
proof -
  let ?co = "filter (\<lambda>r. highly_rated r \<and> r_userId r \<in> r_userId ` set (target_events rs m)) rs"
  let ?n = "length (target_events rs m)"
  from assms obtain e where e: "e \<in> set (target_events rs m)"
    by (cases "target_events rs m") auto
  then have "e \<in> set ?co" "r_movieId e = m"
    by (auto simp: target_events_def)
  then have "m \<in> set (map r_movieId ?co)" by force
  then have "(m, count_list (map r_movieId ?co) m) \<in> set (group_count (map r_movieId ?co))"
    by (simp add: set_group_count)
  moreover have "count_list (map r_movieId ?co) m = ?n"
    by (simp only: count_list_map_filter co_liked_target_count)
  ultimately have "(m, ?n) \<in> set (group_count (map r_movieId ?co))" by simp
  then have "(m, rat_of_nat ?n / rat_of_nat ?n) \<in> set (map (\<lambda>(k, n). (k, rat_of_nat n / rat_of_nat ?n))
          (group_count (map r_movieId ?co)))"
    by force
  moreover have "rat_of_nat ?n / rat_of_nat ?n = 1" using assms by simp
  ultimately show ?thesis
    by (simp add: similar_recs_sql_eq set_order_by_score_desc)
qed

lemma distinct_users_of_movie:
  "distinct (map (\<lambda>r. (u r, mv r)) rs) \<Longrightarrow> distinct (map u (filter (\<lambda>r. mv r = k \<and> P r) rs))"
  by (induction rs) (auto simp: image_iff)

lemma co_liked_count_le:
  assumes "distinct (map (\<lambda>r. (r_userId r, r_movieId r)) rs)"
  shows "length (filter (\<lambda>r. r_movieId r = k)
      (filter (\<lambda>r. highly_rated r \<and> r_userId r \<in> r_userId ` set (target_events rs m)) rs))
   \<le> length (target_events rs m)"
proof -
  let ?P = "\<lambda>r. highly_rated r \<and> r_userId r \<in> r_userId ` set (target_events rs m)"
  let ?us = "map r_userId (filter (\<lambda>r. r_movieId r = k \<and> ?P r) rs)"
  have d: "distinct ?us" by (rule distinct_users_of_movie[OF assms])
  have "length (filter (\<lambda>r. r_movieId r = k) (filter ?P rs)) = length ?us"
    by (simp add: conj_commute)
  also have "\<dots> = card (set ?us)" using d by (simp only: distinct_card)
  also have "\<dots> \<le> card (set (map r_userId (target_events rs m)))"
    by (rule card_mono) auto
  also have "\<dots> \<le> length (target_events rs m)"
    using card_length[of "map r_userId (target_events rs m)"] by simp
  finally show ?thesis .
qed

lemma similar_scores_in_unit:
  assumes "distinct (map (\<lambda>r. (r_userId r, r_movieId r)) rs)"
    and "similar_recs_sql rs m = Some rows" and "(k, s) \<in> set rows"
  shows "0 \<le> s \<and> s \<le> 1"
proof -
  let ?co = "filter (\<lambda>r. highly_rated r \<and> r_userId r \<in> r_userId ` set (target_events rs m)) rs"
  let ?n = "length (target_events rs m)"
  from assms(2,3) obtain c where c: "(k, c) \<in> set (group_count (map r_movieId ?co))"
    and s: "s = of_nat c / of_nat ?n"
    by (auto simp: similar_recs_sql_eq set_order_by_score_desc)
  from c have "c = length (filter (\<lambda>r. r_movieId r = k) ?co)"
    by (auto simp: set_group_count count_list_map_filter)
  with co_liked_count_le[OF assms(1), of k m] have le: "c \<le> ?n" by simp
  from c have "c > 0" by (rule group_count_pos)
  with le have "?n > 0" by linarith
  with le show ?thesis unfolding s
    by (simp add: divide_le_eq)
qed

text \<open>
  C5, as the code has it. In a rating table where no (userId, movieId) pair
  occurs twice, every \<^verbatim>\<open>similarity_score\<close> that \<^verbatim>\<open>get_similar_recs\<close> returns
  lies between 0 and 1. Without that condition the bound fails: a cohort member
  with two highly-rated events for one movie is counted twice in the numerator.
\<close>

theorem get_similar_recs_unit_interval:
  assumes "distinct (map (\<lambda>r. (r_userId r, r_movieId r)) (ratings ds))"
    and "\<not> unavailable ds Q_similar_recs"
  shows "\<exists>rows. get_similar_recs ds m = Inr (Some rows) \<and>
           (\<forall>(k, s) \<in> set rows. 0 \<le> s \<and> s \<le> 1)"
proof -
  obtain rows where rows: "similar_recs_sql (ratings ds) m = Some rows"
    by (simp add: similar_recs_sql_eq)
  have "\<forall>(k, s) \<in> set rows. 0 \<le> s \<and> s \<le> 1"
    using similar_scores_in_unit[OF assms(1) rows] by auto
  with rows assms(2) show ?thesis
    by (simp add: get_similar_recs_def execute_query_executes)
qed

theorem get_similar_recs_unit_interval_witness:
  "distinct (map (\<lambda>r. (r_userId r, r_movieId r)) (ratings ex_ds)) \<and>
   \<not> unavailable ex_ds Q_similar_recs \<and>
   (\<exists>rows. get_similar_recs ex_ds 10 = Inr (Some rows) \<and>
      (\<forall>(k, s) \<in> set rows. 0 \<le> s \<and> s \<le> 1))"
proof -
  have h1: "distinct (map (\<lambda>r. (r_userId r, r_movieId r)) (ratings ex_ds))" by code_simp
  have h2: "\<not> unavailable ex_ds Q_similar_recs" by (simp add: ex_ds_def unavailable_def)
  show ?thesis using h1 h2 get_similar_recs_unit_interval[OF h1 h2] by simp
qed

theorem get_similar_recs_above_one:
  "get_similar_recs ex_repeat 10 = Inr (Some [(20, 2), (10, 1)]) \<and> \<not> (2::rat) \<le> 1"
  by code_simp




section \<open>Properties of the Score Combiner\<close>

lemma concat_map_Nil: "concat (map (\<lambda>x. []) xs) = []"
  by (induction xs) auto

lemma all_user_recs_sql_empty:
  "target_events rs m = [] \<Longrightarrow> all_user_recs_sql rs m = Some []"
  by (simp add: all_user_recs_sql_def group_count_def concat_map_Nil)

lemma all_user_recs_sql_total: "\<exists>au. all_user_recs_sql rs m = Some au"
proof (cases "target_events rs m = []")
  case True
  then show ?thesis by (simp add: all_user_recs_sql_empty)
next
  case False
  then have pos: "length (map r_userId (target_events rs m)) \<noteq> 0" by simp
  have "\<exists>mc. those (map (\<lambda>(k, n). map_option (\<lambda>s. (k, n, s)) (sql_div n (length (map r_userId (target_events rs m))))) g)
      = Some mc" for g
    using pos by (induction g) (auto simp: sql_div_def)
  then show ?thesis
    unfolding all_user_recs_sql_def Let_def by (metis option.simps(9))
qed

lemma distinct_map_insort_key:
  "distinct (map g (insort_key f x xs)) \<longleftrightarrow> distinct (map g (x # xs))"
  by (induction xs) (auto simp: set_insort_key)

lemma distinct_map_sort_key:
  "distinct (map g (sort_key f xs)) \<longleftrightarrow> distinct (map g xs)"
  by (induction xs) (auto simp: distinct_map_insort_key)

lemma distinct_keys_similar:
  "similar_recs_sql rs m = Some sur \<Longrightarrow> distinct (map fst sur)"
proof -
  have k: "fst \<circ> (\<lambda>(k, n). (k, rat_of_nat n / d)) = (fst :: int \<times> nat \<Rightarrow> int)" for d
    by auto
  have "distinct (map fst (filter P (map (\<lambda>(k, n). (k, rat_of_nat n / d)) (group_count ks))))" for P d ks
    by (rule distinct_map_filter) (simp add: k keys_group_count)
  then show "similar_recs_sql rs m = Some sur \<Longrightarrow> distinct (map fst sur)"
    by (auto simp: similar_recs_sql_eq order_by_score_desc_def distinct_map_sort_key)
qed

lemma keys_all_user_recs: "fst ` set (all_user_recs au) = r_movieId ` set au"
  by (force simp: all_user_recs_def value_counts_def Let_def)

lemma distinct_keys_all_user_recs: "distinct (map fst (all_user_recs au))"
proof -
  have k: "map fst (map (\<lambda>(k, c). (k, rat_of_nat c / d)) g) = map fst g" for d and g :: "(int \<times> nat) list"
    by (induction g) auto
  show ?thesis
    by (simp add: all_user_recs_def Let_def k value_counts_def distinct_map_sort_key comp_def)
qed

lemma filter_key_le_one:
  "distinct (map f xs) \<Longrightarrow> length (filter (\<lambda>x. f x = k) xs) \<le> 1"
  by (induction xs) (auto simp: filter_empty_conv image_iff)

lemma distinct_keys_concat:
  assumes "distinct ks"
    and "\<And>k. k \<in> set ks \<Longrightarrow> length (F k) \<le> 1"
    and "\<And>k row. k \<in> set ks \<Longrightarrow> row \<in> set (F k) \<Longrightarrow> fst row = k"
  shows "distinct (map fst (concat (map F ks)))"
  using assms
proof (induction ks)
  case Nil
  then show ?case by simp
next
  case (Cons k ks)
  have "length (F k) \<le> 1" using Cons.prems(2)[of k] by simp
  then have one: "distinct (map fst (F k))"
    by (cases "F k") auto
  have rest: "distinct (map fst (concat (map F ks)))"
  proof (rule Cons.IH)
    show "distinct ks" using Cons.prems(1) by simp
  next
    fix k' assume "k' \<in> set ks"
    then show "length (F k') \<le> 1" using Cons.prems(2)[of k'] by simp
  next
    fix k' row assume "k' \<in> set ks" "row \<in> set (F k')"
    then show "fst row = k'" using Cons.prems(3)[of k' row] by simp
  qed
  have here: "set (map fst (F k)) \<subseteq> {k}"
  proof
    fix a assume "a \<in> set (map fst (F k))"
    then obtain row where "row \<in> set (F k)" "a = fst row" by auto
    then show "a \<in> {k}" using Cons.prems(3)[of k row] by simp
  qed
  have there: "set (map fst (concat (map F ks))) \<subseteq> set ks"
  proof
    fix a assume "a \<in> set (map fst (concat (map F ks)))"
    then obtain k' row where "k' \<in> set ks" "row \<in> set (F k')" "a = fst row" by auto
    then show "a \<in> set ks" using Cons.prems(3)[of k' row] by simp
  qed
  have "k \<notin> set ks" using Cons.prems(1) by simp
  with here there have "set (map fst (F k)) \<inter> set (map fst (concat (map F ks))) = {}"
    by (simp only: subset_iff singleton_iff disjoint_iff) metis
  with one rest have "distinct (map fst (F k) @ map fst (concat (map F ks)))"
    by (simp only: distinct_append)
  then show ?case by simp
qed

lemma merge_outer_block_le_one:
  assumes "length ls \<le> 1" and "length rs \<le> 1"
  shows "length (if rs = [] then map (\<lambda>s. (k, Some s, None)) ls
           else if ls = [] then map (\<lambda>c. (k, None, Some c)) rs
           else [(k, Some s, Some c). s \<leftarrow> ls, c \<leftarrow> rs]) \<le> 1"
proof -
  from assms(1) have "ls = [] \<or> (\<exists>s. ls = [s])" by (cases ls) auto
  moreover from assms(2) have "rs = [] \<or> (\<exists>c. rs = [c])" by (cases rs) auto
  ultimately show ?thesis by auto
qed

lemma distinct_keys_merge_outer:
  assumes "distinct (map fst left)" and "distinct (map fst right)"
  shows "distinct (map fst (merge_outer left right))"
  unfolding merge_outer_def
proof (rule distinct_keys_concat, goal_cases)
  case 1
  show ?case by simp
next
  case (2 k)
  have "length (map snd (filter (\<lambda>row. fst row = k) left)) \<le> 1"
       "length (map snd (filter (\<lambda>row. fst row = k) right)) \<le> 1"
    using filter_key_le_one[OF assms(1), of k] filter_key_le_one[OF assms(2), of k] by simp_all
  then show ?case
    unfolding Let_def by (rule merge_outer_block_le_one)
next
  case (3 k row)
  then show ?case by (auto simp: Let_def split: if_splits)
qed

lemma keys_with_score_fillna: "map movieId (with_score (fillna rows)) = map fst rows"
  by (induction rows) (auto simp: with_score_def fillna_def)

lemma set_sort_values_score: "set (sort_values_score rows) = set rows"
  by (simp add: sort_values_score_def)

lemma distinct_keys_combined:
  assumes "distinct (map fst sur)"
  shows "distinct (map movieId (combined_recommendations sur au))"
  unfolding combined_recommendations_def sort_values_score_def
  by (simp add: distinct_map_sort_key keys_with_score_fillna
        distinct_keys_merge_outer[OF assms distinct_keys_all_user_recs])

lemma sorted_desc_sort_values:
  "sorted_wrt (\<lambda>a b. score a \<ge> score b) (sort_values_score rows)"
proof -
  have "sorted (map (\<lambda>row. - score row) (sort_values_score rows))"
    unfolding sort_values_score_def by (rule sorted_sort_key)
  then show ?thesis
    by (simp add: sorted_map)
qed

lemma sorted_desc_combined:
  "sorted_wrt (\<lambda>a b. score a \<ge> score b) (combined_recommendations sur au)"
  unfolding combined_recommendations_def by (rule sorted_desc_sort_values)

lemma row_score_rule:
  "row \<in> set (combined_recommendations sur au) \<Longrightarrow>
     score row = similarity_score row / (if count row = 0 then 1 else count row)"
  by (auto simp: combined_recommendations_def set_sort_values_score with_score_def)

lemma concat_map_if:
  "concat (map (\<lambda>x. if P x then [g x] else []) xs) = map g (filter P xs)"
  by (induction xs) auto

lemma merge_inner_Nil: "merge_inner [] ms = []"
  by (simp add: merge_inner_def)

lemma merge_inner_Cons:
  "merge_inner (row # left) ms =
     map (join_movie row) (filter (\<lambda>mv. m_movieId mv = movieId row) ms) @ merge_inner left ms"
  by (simp add: merge_inner_def concat_map_if)

lemma join_movie_cols:
  "movieId (join_movie row mv) = movieId row"
  "score (join_movie row mv) = score row"
  "title (join_movie row mv) = m_title mv"
  "genres (join_movie row mv) = m_genres mv"
  by (simp_all add: join_movie_def)

lemma set_merge_inner:
  "set (merge_inner left ms) =
     {join_movie row mv | row mv. row \<in> set left \<and> mv \<in> set ms \<and> m_movieId mv = movieId row}"
  by (induction left) (auto simp: merge_inner_Nil merge_inner_Cons)

lemma length_merge_inner:
  assumes "distinct (map m_movieId ms)"
  shows "length (merge_inner left ms) \<le> length left"
proof (induction left)
  case Nil
  show ?case by (simp add: merge_inner_Nil)
next
  case (Cons row left)
  have "length (filter (\<lambda>mv. m_movieId mv = movieId row) ms) \<le> 1"
    by (rule filter_key_le_one[OF assms])
  with Cons show ?case by (simp add: merge_inner_Cons)
qed

lemma distinct_merge_inner:
  assumes "distinct (map m_movieId ms)" and "distinct (map movieId left)"
  shows "distinct (map movieId (merge_inner left ms))"
  using assms(2)
proof (induction left)
  case Nil
  show ?case by (simp add: merge_inner_Nil)
next
  case (Cons row left)
  let ?hits = "filter (\<lambda>mv. m_movieId mv = movieId row) ms"
  have "length ?hits \<le> 1" by (rule filter_key_le_one[OF assms(1)])
  then have one: "distinct (map movieId (map (join_movie row) ?hits))"
    by (cases ?hits) auto
  have here: "set (map movieId (map (join_movie row) ?hits)) \<subseteq> {movieId row}"
    by (auto simp: join_movie_cols)
  have there: "set (map movieId (merge_inner left ms)) \<subseteq> set (map movieId left)"
    by (auto simp: set_merge_inner join_movie_cols)
  have "movieId row \<notin> set (map movieId left)" using Cons.prems by simp
  with here there
  have "set (map movieId (map (join_movie row) ?hits)) \<inter> set (map movieId (merge_inner left ms)) = {}"
    by (simp only: subset_iff singleton_iff disjoint_iff) metis
  moreover have "distinct (map movieId (merge_inner left ms))"
    using Cons by simp
  ultimately have "distinct (map movieId (map (join_movie row) ?hits) @ map movieId (merge_inner left ms))"
    using one by (simp only: distinct_append)
  then show ?case by (simp add: merge_inner_Cons)
qed

lemma sorted_merge_inner:
  assumes "sorted_wrt (\<lambda>a b. score a \<ge> score b) left"
  shows "sorted_wrt (\<lambda>a b. score a \<ge> score b) (merge_inner left ms)"
  using assms
proof (induction left)
  case Nil
  show ?case by (simp add: merge_inner_Nil)
next
  case (Cons row left)
  have block: "sorted_wrt (\<lambda>a b. score a \<ge> score b) (map (join_movie row) hits)" for hits
    by (induction hits) (auto simp: join_movie_cols)
  have rest: "sorted_wrt (\<lambda>a b. score a \<ge> score b) (merge_inner left ms)"
    using Cons by simp
  have cross: "score a \<ge> score b"
    if "a \<in> set (map (join_movie row) (filter (\<lambda>mv. m_movieId mv = movieId row) ms))"
      and "b \<in> set (merge_inner left ms)" for a b
  proof -
    from that(1) have "score a = score row" by (auto simp: join_movie_cols)
    moreover from that(2) obtain row' where "row' \<in> set left" "score b = score row'"
      by (auto simp: set_merge_inner join_movie_cols)
    moreover have "score row \<ge> score row'" using Cons.prems \<open>row' \<in> set left\<close> by simp
    ultimately show ?thesis by simp
  qed
  show ?case
    unfolding merge_inner_Cons sorted_wrt_append
    using block rest cross by blast
qed

section \<open>Memoised reads agree with the snapshot\<close>

lemma cache_ok_fresh: "cache_ok ds fresh"
  by (simp add: cache_ok_def fresh_def)

lemma expired_refl: "expired c c"
  by (simp add: expired_def)

lemma cache_ok_expired:
  assumes "cache_ok ds c" and "expired c c'"
  shows "cache_ok ds c'"
proof -
  have mv: "movies_cache c = Some v" if "movies_cache c' = Some v" for v
    using assms(2) that by (auto simp: expired_def)
  have "similar_cache c' \<subseteq>\<^sub>m similar_cache c" using assms(2) by (simp add: expired_def)
  then have si: "similar_cache c k = Some v" if "similar_cache c' k = Some v" for k v
    using that by (metis domI map_le_def)
  have "all_user_cache c' \<subseteq>\<^sub>m all_user_cache c" using assms(2) by (simp add: expired_def)
  then have au: "all_user_cache c k = Some v" if "all_user_cache c' k = Some v" for k v
    using that by (metis domI map_le_def)
  show ?thesis
    unfolding cache_ok_def
  proof (intro conjI allI impI)
    fix v assume "movies_cache c' = Some v"
    then show "get_movies ds = Inr v" using assms(1) mv by (simp add: cache_ok_def)
  next
    fix k v assume "similar_cache c' k = Some v"
    then show "get_similar_recs ds k = Inr v" using assms(1) si by (simp add: cache_ok_def)
  next
    fix k v assume "all_user_cache c' k = Some v"
    then show "get_all_user_recs ds k = Inr v" using assms(1) au by (simp add: cache_ok_def)
  qed
qed

lemma get_cached_similar_recs_ok:
  assumes "cache_ok ds c"
  shows "\<exists>c'. get_cached_similar_recs c ds m = (get_similar_recs ds m, c') \<and> cache_ok ds c'"
  using assms
  by (auto simp: get_cached_similar_recs_def cache_ok_def split: option.splits sum.splits)

lemma get_cached_all_user_recs_ok:
  assumes "cache_ok ds c"
  shows "\<exists>c'. get_cached_all_user_recs c ds m = (get_all_user_recs ds m, c') \<and> cache_ok ds c'"
  using assms
  by (auto simp: get_cached_all_user_recs_def cache_ok_def split: option.splits sum.splits)

lemma load_movies_ok:
  assumes "cache_ok ds c"
  shows "\<exists>c'. load_movies c ds = (get_movies ds, c') \<and> cache_ok ds c'"
  using assms
  by (auto simp: load_movies_def cache_ok_def split: option.splits sum.splits)

lemma recommendation_try_ok:
  assumes "cache_ok ds c"
  shows "\<exists>c'. recommendation_try c ds m =
           (recommendation_of (get_similar_recs ds m) (get_all_user_recs ds m) (get_movies ds), c')
         \<and> cache_ok ds c'"
proof -
  from get_cached_similar_recs_ok[OF assms] obtain c1
    where 1: "get_cached_similar_recs c ds m = (get_similar_recs ds m, c1)" and ok1: "cache_ok ds c1"
    by blast
  from get_cached_all_user_recs_ok[OF ok1] obtain c2
    where 2: "get_cached_all_user_recs c1 ds m = (get_all_user_recs ds m, c2)" and ok2: "cache_ok ds c2"
    by blast
  from load_movies_ok[OF ok2] obtain c3
    where 3: "load_movies c2 ds = (get_movies ds, c3)" and ok3: "cache_ok ds c3"
    by blast
  show ?thesis
    using ok1 ok2 ok3
    by (simp add: recommendation_try_def to_python_type_def 1 2 3 recommendation_of_def
          split: option.splits sum.splits)
qed

lemma recommendation_ok:
  assumes "cache_ok ds c"
  shows "\<exists>c'. recommendation c ds m =
           ((case recommendation_of (get_similar_recs ds m) (get_all_user_recs ds m) (get_movies ds)
             of Inl e \<Rightarrow> [] | Inr results \<Rightarrow> results), c')
         \<and> cache_ok ds c'"
  using recommendation_try_ok[OF assms, of m]
  by (auto simp: recommendation_def split: sum.splits)

section \<open>Properties of the scored table\<close>

lemma in_concat_mapI: "k \<in> set ks \<Longrightarrow> x \<in> set (F k) \<Longrightarrow> x \<in> set (concat (map F ks))"
  by auto

lemma merge_outer_left_only:
  assumes "(k, s) \<in> set left" and "k \<notin> fst ` set right"
  shows "(k, Some s, None) \<in> set (merge_outer left right)"
proof -
  have key: "k \<in> set (sort (remdups (map fst left @ map fst right)))"
    using assms(1) by force
  have no_right: "map snd (filter (\<lambda>row. fst row = k) right) = []"
    using assms(2) by (auto simp: filter_empty_conv)
  have "s \<in> set (map snd (filter (\<lambda>row. fst row = k) left))"
    using assms(1) by force
  then have "(k, Some s, None) \<in> set (map (\<lambda>s. (k, Some s, None)) (map snd (filter (\<lambda>row. fst row = k) left)))"
    by (simp add: image_iff)
  then show ?thesis
    unfolding merge_outer_def
    by (intro in_concat_mapI[OF key]) (simp only: Let_def no_right refl if_True)
qed

lemma merge_outer_no_right:
  assumes "(k, a, b) \<in> set (merge_outer left right)" and "k \<notin> fst ` set right"
  shows "b = None \<and> (\<exists>s. a = Some s \<and> (k, s) \<in> set left)"
proof -
  from assms(1) obtain k' where
    blk: "(k, a, b) \<in> set (let ls = map snd (filter (\<lambda>row. fst row = k') left);
            rs = map snd (filter (\<lambda>row. fst row = k') right)
        in if rs = [] then map (\<lambda>s. (k', Some s, None)) ls
           else if ls = [] then map (\<lambda>c. (k', None, Some c)) rs
           else [(k', Some s, Some c). s \<leftarrow> ls, c \<leftarrow> rs])"
    unfolding merge_outer_def set_concat set_map by blast
  then have same: "k' = k"
    by (auto simp: Let_def split: if_splits)
  have no_right: "map snd (filter (\<lambda>row. fst row = k) right) = []"
    using assms(2) by (auto simp: filter_empty_conv)
  from blk show ?thesis
    unfolding same Let_def no_right by auto
qed

lemma with_score_fillna:
  "with_score (fillna rows) =
     map (\<lambda>(k, s, c). \<lparr>movieId = k, similarity_score = fill0 s, count = fill0 c,
                   score = fill0 s / (if fill0 c = 0 then 1 else fill0 c)\<rparr>) rows"
  by (induction rows) (auto simp: with_score_def fillna_def)

lemma set_combined_recommendations:
  "set (combined_recommendations sur au) =
     (\<lambda>(k, s, c). \<lparr>movieId = k, similarity_score = fill0 s, count = fill0 c,
                   score = fill0 s / (if fill0 c = 0 then 1 else fill0 c)\<rparr>)
       ` set (merge_outer sur (all_user_recs au))"
  by (simp add: combined_recommendations_def set_sort_values_score with_score_fillna)

lemma merge_outer_keeps_left_key:
  assumes "(k, s) \<in> set left"
  shows "k \<in> fst ` set (merge_outer left right)"
proof -
  let ?ls = "map snd (filter (\<lambda>row. fst row = k) left)"
  let ?rs = "map snd (filter (\<lambda>row. fst row = k) right)"
  let ?block = "if ?rs = [] then map (\<lambda>s. (k, Some s, None)) ?ls
           else if ?ls = [] then map (\<lambda>c. (k, None, Some c)) ?rs
           else [(k, Some s, Some c). s \<leftarrow> ?ls, c \<leftarrow> ?rs]"
  have key: "k \<in> set (sort (remdups (map fst left @ map fst right)))"
    using assms by force
  have s: "s \<in> set ?ls" using assms by force
  have "\<exists>a b. (k, a, b) \<in> set ?block"
  proof (cases "?rs = []")
    case True
    with s have "(k, Some s, None) \<in> set ?block" by (simp add: image_iff)
    then show ?thesis by blast
  next
    case False
    then obtain c where c: "c \<in> set ?rs" by (cases ?rs) auto
    from s have "?ls \<noteq> []" by (metis empty_iff list.set(1))
    with False s c have "(k, Some s, Some c) \<in> set ?block" by (simp add: image_iff)
    then show ?thesis by blast
  qed
  then obtain a b where "(k, a, b) \<in> set ?block" by blast
  then have "(k, a, b) \<in> set (merge_outer left right)"
    unfolding merge_outer_def
    by (intro in_concat_mapI[OF key]) (simp only: Let_def)
  then show ?thesis by force
qed

lemma keys_combined_recommendations:
  "movieId ` set (combined_recommendations sur au) = fst ` set (merge_outer sur (all_user_recs au))"
  unfolding set_combined_recommendations by force

text \<open>
  C10. When the target movie has a rating event with rating above 4 and the
  read executes, \<^verbatim>\<open>get_similar_recs\<close> returns a frame that holds the target
  movie itself with \<^verbatim>\<open>similarity_score\<close> exactly 1 (numerator and divisor
  are the same count), and the target movie has a row in the scored table the
  Combiner builds from that frame.
\<close>

theorem get_similar_recs_target_one:
  assumes "target_events (ratings ds) m \<noteq> []" and "\<not> unavailable ds Q_similar_recs"
  shows "\<exists>rows. get_similar_recs ds m = Inr (Some rows) \<and> (m, 1) \<in> set rows \<and>
           m \<in> movieId ` set (combined_recommendations rows all_users)"
proof -
  from target_in_similar[OF assms(1)] obtain rows
    where rows: "similar_recs_sql (ratings ds) m = Some rows" and one: "(m, 1) \<in> set rows"
    by blast
  have "m \<in> movieId ` set (combined_recommendations rows all_users)"
    unfolding keys_combined_recommendations by (rule merge_outer_keeps_left_key[OF one])
  with rows one assms(2) show ?thesis
    by (simp add: get_similar_recs_def execute_query_executes)
qed

theorem get_similar_recs_target_one_witness:
  "target_events (ratings ex_ds) 10 \<noteq> [] \<and> \<not> unavailable ex_ds Q_similar_recs \<and>
   (\<exists>rows. get_similar_recs ex_ds 10 = Inr (Some rows) \<and> (10, 1) \<in> set rows \<and>
      10 \<in> movieId ` set (combined_recommendations rows ex_all_users))"
proof -
  have h1: "target_events (ratings ex_ds) 10 \<noteq> []" by code_simp
  have h2: "\<not> unavailable ex_ds Q_similar_recs" by (simp add: ex_ds_def unavailable_def)
  show ?thesis using h1 h2 get_similar_recs_target_one[OF h1 h2] by simp
qed

text \<open>
  C4. A movie with a row in the affinity frame and no event in the frame of
  rating events (hence no row in the popularity statistic) gets the count 0 and
  a score equal to its affinity, in every row the Combiner makes for it.
\<close>

theorem zero_popularity_score_is_affinity:
  assumes "(k, s) \<in> set similar_user_recs" and "k \<notin> r_movieId ` set all_users"
  shows "\<lparr>movieId = k, similarity_score = s, count = 0, score = s\<rparr>
           \<in> set (combined_recommendations similar_user_recs all_users)
         \<and> (\<forall>row \<in> set (combined_recommendations similar_user_recs all_users).
              movieId row = k \<longrightarrow> count row = 0 \<and> score row = similarity_score row)"
proof -
  have nr: "k \<notin> fst ` set (all_user_recs all_users)"
    using assms(2) by (simp add: keys_all_user_recs)
  have "(k, Some s, None) \<in> set (merge_outer similar_user_recs (all_user_recs all_users))"
    by (rule merge_outer_left_only[OF assms(1) nr])
  then have there: "\<lparr>movieId = k, similarity_score = s, count = 0, score = s\<rparr>
           \<in> set (combined_recommendations similar_user_recs all_users)"
    unfolding set_combined_recommendations by (force simp: fill0_def)
  have only: "count row = 0 \<and> score row = similarity_score row"
    if "row \<in> set (combined_recommendations similar_user_recs all_users)" "movieId row = k" for row
  proof -
    from that obtain a b where
      m: "(k, a, b) \<in> set (merge_outer similar_user_recs (all_user_recs all_users))"
      and r: "row = \<lparr>movieId = k, similarity_score = fill0 a, count = fill0 b,
                   score = fill0 a / (if fill0 b = 0 then 1 else fill0 b)\<rparr>"
      unfolding set_combined_recommendations by auto
    from merge_outer_no_right[OF m nr] have "b = None" by simp
    with r show ?thesis by (simp add: fill0_def)
  qed
  from there only show ?thesis by blast
qed

theorem zero_popularity_score_is_affinity_witness:
  "(20, 1 / 2) \<in> set [(10, 1), (20, 1 / 2 :: rat)] \<and> 20 \<notin> r_movieId ` set [ev 1 10 5, ev 2 10 5] \<and>
   \<lparr>movieId = 20, similarity_score = 1 / 2, count = 0, score = 1 / 2\<rparr>
       \<in> set (combined_recommendations [(10, 1), (20, 1 / 2)] [ev 1 10 5, ev 2 10 5])"
proof -
  have h1: "(20, 1 / 2) \<in> set [(10, 1), (20, 1 / 2 :: rat)]" by simp
  have h2: "20 \<notin> r_movieId ` set [ev 1 10 5, ev 2 10 5]" by (simp add: ev_def)
  show ?thesis
    using h1 h2 zero_popularity_score_is_affinity[OF h1 h2] by blast
qed

lemma recommendation_of_failed_read:
  "(\<forall>v. read1 \<noteq> Inr (Some v)) \<or> (\<forall>v. read2 \<noteq> Inr (Some v)) \<or> (\<forall>v. read3 \<noteq> Inr (Some v)) \<Longrightarrow>
     (case recommendation_of read1 read2 read3 of Inl e \<Rightarrow> [] | Inr results \<Rightarrow> results) = []"
  by (auto simp: recommendation_of_def split: option.splits sum.splits)

lemma unavailable_read_fails:
  "unavailable ds q \<Longrightarrow>
     (\<forall>v. get_similar_recs ds m \<noteq> Inr (Some v)) \<or> (\<forall>v. get_all_user_recs ds m \<noteq> Inr (Some v)) \<or>
     (\<forall>v. get_movies ds \<noteq> Inr (Some v))"
  by (cases q) (simp_all add: get_similar_recs_def get_all_user_recs_def get_movies_def
      execute_query_unavailable)

lemma get_all_user_recs_empty_cohort:
  "target_events (ratings ds) m = [] \<Longrightarrow> get_all_user_recs ds m = Inr (Some v) \<Longrightarrow> v = []"
  by (auto simp: get_all_user_recs_def all_user_recs_sql_empty dest: execute_query_Some)

text \<open>
  C1, as the code has it. Every row of the scored table has
  \<^verbatim>\<open>score = similarity_score / count\<close>, with the divisor 1 when the count
  is exactly 0: only a zero count is replaced, a count below 1 divides as it is.
\<close>

theorem score_divides_by_nonzero_count:
  "\<forall>row \<in> set (combined_recommendations similar_user_recs all_users).
     score row = similarity_score row / (if count row = 0 then 1 else count row)"
  using row_score_rule by blast

theorem score_divides_by_nonzero_count_witness:
  "ex_row20 \<in> set (combined_recommendations [(10, 1), (20, 1 / 2)] [ev 1 10 5, ev 2 10 5, ev 1 20 5]) \<and>
   score ex_row20 = similarity_score ex_row20 / (if count ex_row20 = 0 then 1 else count ex_row20)"
proof -
  have h: "ex_row20 \<in> set (combined_recommendations [(10, 1), (20, 1 / 2)] [ev 1 10 5, ev 2 10 5, ev 1 20 5])"
    by code_simp
  show ?thesis
    using h score_divides_by_nonzero_count[of "[(10, 1), (20, 1 / 2)]" "[ev 1 10 5, ev 2 10 5, ev 1 20 5]"]
    by blast
qed

theorem score_not_floored_at_one:
  "get_similar_recs ex_ds 10 = Inr (Some ex_similar) \<and>
   get_all_user_recs ex_ds 10 = Inr (Some ex_all_users) \<and>
   ex_row20 \<in> set (combined_recommendations ex_similar ex_all_users) \<and>
   score ex_row20 \<noteq> similarity_score ex_row20 / max (count ex_row20) 1"
  by code_simp

text \<open>
  C2. When the target movie has no rating event with rating above 4, a call of
  \<^verbatim>\<open>recommendation\<close> on a store that agrees with the snapshot returns the
  empty list, whether or not the reads execute.
\<close>

theorem recommendation_empty_cohort:
  assumes "cache_ok ds c" and "target_events (ratings ds) m = []"
  shows "fst (recommendation c ds m) = []"
proof -
  from recommendation_ok[OF assms(1), of m]
  have r: "fst (recommendation c ds m) =
      (case recommendation_of (get_similar_recs ds m) (get_all_user_recs ds m) (get_movies ds)
       of Inl e \<Rightarrow> [] | Inr results \<Rightarrow> results)"
    by auto
  from get_all_user_recs_empty_cohort[OF assms(2)] show ?thesis
    unfolding r by (auto simp: recommendation_of_def split: sum.splits option.splits)
qed

theorem recommendation_empty_cohort_witness:
  "cache_ok ex_ds fresh \<and> target_events (ratings ex_ds) 30 = [] \<and> fst (recommendation fresh ex_ds 30) = []"
proof -
  have h1: "cache_ok ex_ds fresh" by (rule cache_ok_fresh)
  have h2: "target_events (ratings ex_ds) 30 = []" by code_simp
  show ?thesis using h1 h2 recommendation_empty_cohort[OF h1 h2] by simp
qed

section \<open>The two frames of one snapshot\<close>

lemma all_user_recs_sql_eq:
  "all_user_recs_sql rs m =
     Some [r. r \<leftarrow> rs,
              sm \<leftarrow> map fst (filter (\<lambda>(k, n, s). s > 1 / 10)
                (map (\<lambda>(k, n). (k, n, rat_of_nat n / rat_of_nat (length (target_events rs m))))
                  (filter (\<lambda>(k, n). n > 0) (group_count (map r_movieId
                     [r. r \<leftarrow> rs, fu \<leftarrow> map r_userId (target_events rs m),
                         r_userId r = fu, highly_rated r]))))),
              r_movieId r = sm, highly_rated r]"
proof (cases "target_events rs m = []")
  case True
  then show ?thesis
    by (simp add: all_user_recs_sql_def group_count_def concat_map_Nil)
next
  case False
  then have pos: "length (target_events rs m) \<noteq> 0" by simp
  have th: "those (map (\<lambda>(k, n). map_option (\<lambda>s. (k, n, s)) (sql_div n (length (target_events rs m)))) g)
      = Some (map (\<lambda>(k, n). (k, n, rat_of_nat n / rat_of_nat (length (target_events rs m)))) g)" for g
    using pos by (induction g) (auto simp: sql_div_def)
  show ?thesis
    by (simp add: all_user_recs_sql_def Let_def th)
qed

lemma join_block_replicate:
  "concat (map (\<lambda>fu. if u = fu then xs else []) fus) = concat (replicate (count_list fus u) xs)"
  by (induction fus) auto

lemma semijoin_le_join:
  "length (filter (\<lambda>r. r_movieId r = k) (filter (\<lambda>r. highly_rated r \<and> r_userId r \<in> set fus) rs))
     \<le> length (filter (\<lambda>r. r_movieId r = k)
           [r. r \<leftarrow> rs, fu \<leftarrow> fus, r_userId r = fu, highly_rated r])"
proof (induction rs)
  case Nil
  show ?case by simp
next
  case (Cons r rs)
  have blk: "concat (map (\<lambda>fu. if r_userId r = fu then (if highly_rated r then [r] else []) else []) fus)
      = (if highly_rated r then replicate (count_list fus (r_userId r)) r else [])"
    by (simp add: join_block_replicate concat_map_Nil)
  have "r_userId r \<in> set fus \<Longrightarrow> 1 \<le> count_list fus (r_userId r)"
    using count_list_0_iff[of fus "r_userId r"] by linarith
  with Cons show ?case
    by (auto simp: blk)
qed

text \<open>
  Frames read from one snapshot never meet the case of a movie with an affinity
  row and no popularity row: the join of \<^verbatim>\<open>get_all_user_recs\<close> counts at
  least what the semi-join of \<^verbatim>\<open>get_similar_recs\<close> counts, so a movie above
  the threshold there is above it here, and its rating rows are returned. The
  case is left to frames memoised at different times.
\<close>

lemma affinity_keys_have_events:
  assumes "similar_recs_sql rs m = Some sur" and "all_user_recs_sql rs m = Some au"
    and "(k, s) \<in> set sur"
  shows "k \<in> r_movieId ` set au"
proof -
  let ?fus = "map r_userId (target_events rs m)"
  let ?n = "length (target_events rs m)"
  let ?co = "filter (\<lambda>r. highly_rated r \<and> r_userId r \<in> r_userId ` set (target_events rs m)) rs"
  let ?joined = "[r. r \<leftarrow> rs, fu \<leftarrow> ?fus, r_userId r = fu, highly_rated r]"
  let ?sms = "map fst (filter (\<lambda>(k, n, s). s > 1 / 10)
                (map (\<lambda>(k, n). (k, n, rat_of_nat n / rat_of_nat ?n))
                  (filter (\<lambda>(k, n). n > 0) (group_count (map r_movieId ?joined)))))"
  from assms(1,3) obtain c where c: "(k, c) \<in> set (group_count (map r_movieId ?co))"
    and s: "s = rat_of_nat c / rat_of_nat ?n" and big: "s > 1 / 10"
    by (auto simp: similar_recs_sql_eq set_order_by_score_desc)
  from c have c_eq: "c = length (filter (\<lambda>r. r_movieId r = k) ?co)"
    by (auto simp: set_group_count count_list_map_filter)
  from c have c_pos: "c > 0" by (rule group_count_pos)
  have n_pos: "?n > 0"
  proof (rule ccontr)
    assume "\<not> ?n > 0"
    then have "s = 0" unfolding s by simp
    with big show False by simp
  qed
  define c2 where "c2 = count_list (map r_movieId ?joined) k"
  have "c \<le> length (filter (\<lambda>r. r_movieId r = k) ?joined)"
    unfolding c_eq using semijoin_le_join[of k ?fus rs] by simp
  then have le: "c \<le> c2"
    unfolding c2_def by (simp only: count_list_map_filter)
  with c_pos have c2_pos: "c2 > 0" by linarith
  then have "k \<in> set (map r_movieId ?joined)"
    unfolding c2_def using count_list_0_iff[of "map r_movieId ?joined" k] by linarith
  then have g: "(k, c2) \<in> set (group_count (map r_movieId ?joined))"
    unfolding c2_def by (simp add: set_group_count)
  have "rat_of_nat c / rat_of_nat ?n \<le> rat_of_nat c2 / rat_of_nat ?n"
    using le n_pos by (simp add: divide_right_mono)
  with big have big2: "rat_of_nat c2 / rat_of_nat ?n > 1 / 10"
    unfolding s by linarith
  from g c2_pos have "(k, c2, rat_of_nat c2 / rat_of_nat ?n)
      \<in> set (map (\<lambda>(k, n). (k, n, rat_of_nat n / rat_of_nat ?n))
                  (filter (\<lambda>(k, n). n > 0) (group_count (map r_movieId ?joined))))"
    by force
  with big2 have sm: "k \<in> set ?sms" by force
  from c_pos obtain r where r: "r \<in> set rs" "highly_rated r" "r_movieId r = k"
    unfolding c_eq by (auto simp: filter_empty_conv)
  have "Some au = Some [r. r \<leftarrow> rs, sm \<leftarrow> ?sms, r_movieId r = sm, highly_rated r]"
    unfolding assms(2)[symmetric] by (rule all_user_recs_sql_eq)
  then have "au = [r. r \<leftarrow> rs, sm \<leftarrow> ?sms, r_movieId r = sm, highly_rated r]"
    by (simp only: option.inject)
  with r sm have "r \<in> set au" by auto
  with r(3) show ?thesis by blast
qed

section \<open>Properties of the recommend operation\<close>

lemma recommendation_fst:
  assumes "cache_ok ds c"
  shows "fst (recommendation c ds m) =
      (case recommendation_of (get_similar_recs ds m) (get_all_user_recs ds m) (get_movies ds)
       of Inl e \<Rightarrow> [] | Inr results \<Rightarrow> results)"
  using recommendation_ok[OF assms, of m] by auto

lemma recommendation_snd_ok:
  assumes "cache_ok ds c"
  shows "cache_ok ds (snd (recommendation c ds m))"
  using recommendation_ok[OF assms, of m] by auto

lemma get_similar_recs_distinct_keys:
  "get_similar_recs ds m = Inr (Some sur) \<Longrightarrow> distinct (map fst sur)"
  by (auto simp: get_similar_recs_def distinct_keys_similar dest: execute_query_Some)

lemma get_movies_Some: "get_movies ds = Inr (Some mv) \<Longrightarrow> mv = movies ds"
  by (auto simp: get_movies_def dest: execute_query_Some)

lemma recommendation_shape:
  assumes "cache_ok ds c"
  shows "fst (recommendation c ds m) = [] \<or>
         (\<exists>sur au. get_similar_recs ds m = Inr (Some sur) \<and> get_all_user_recs ds m = Inr (Some au) \<and>
            fst (recommendation c ds m) =
              merge_inner (take 10 (combined_recommendations sur au)) (movies ds))"
  unfolding recommendation_fst[OF assms]
  by (auto simp: recommendation_of_def dest: get_movies_Some split: option.splits sum.splits)

text \<open>
  C3. For a target movie with a rating event above 4, a movie table without
  repeated movieId and a store that agrees with the snapshot, the frame
  \<^verbatim>\<open>recommendation\<close> returns has at most 10 rows, is in descending order of
  \<^verbatim>\<open>score\<close> and holds no movieId twice.
\<close>

theorem recommendation_top10_sorted_distinct:
  assumes "cache_ok ds c" and "distinct (map m_movieId (movies ds))"
    and "target_events (ratings ds) m \<noteq> []"
  shows "length (fst (recommendation c ds m)) \<le> 10 \<and>
         sorted_wrt (\<lambda>a b. score a \<ge> score b) (fst (recommendation c ds m)) \<and>
         distinct (map movieId (fst (recommendation c ds m)))"
proof -
  from recommendation_shape[OF assms(1), of m] show ?thesis
  proof
    assume "fst (recommendation c ds m) = []"
    then show ?thesis by simp
  next
    assume "\<exists>sur au. get_similar_recs ds m = Inr (Some sur) \<and> get_all_user_recs ds m = Inr (Some au) \<and>
            fst (recommendation c ds m) =
              merge_inner (take 10 (combined_recommendations sur au)) (movies ds)"
    then obtain sur au where sur: "get_similar_recs ds m = Inr (Some sur)"
      and res: "fst (recommendation c ds m) =
              merge_inner (take 10 (combined_recommendations sur au)) (movies ds)"
      by blast
    let ?top = "take 10 (combined_recommendations sur au)"
    have "length (merge_inner ?top (movies ds)) \<le> length ?top"
      by (rule length_merge_inner[OF assms(2)])
    then have len: "length (merge_inner ?top (movies ds)) \<le> 10" by simp
    have "sorted_wrt (\<lambda>a b. score a \<ge> score b) ?top"
      by (rule sorted_wrt_take[OF sorted_desc_combined])
    then have srt: "sorted_wrt (\<lambda>a b. score a \<ge> score b) (merge_inner ?top (movies ds))"
      by (rule sorted_merge_inner)
    have "distinct (map movieId (combined_recommendations sur au))"
      by (rule distinct_keys_combined[OF get_similar_recs_distinct_keys[OF sur]])
    then have "distinct (map movieId ?top)"
      by (simp only: take_map[symmetric] distinct_take)
    then have dst: "distinct (map movieId (merge_inner ?top (movies ds)))"
      by (rule distinct_merge_inner[OF assms(2)])
    from len srt dst show ?thesis unfolding res by simp
  qed
qed

theorem recommendation_top10_sorted_distinct_witness:
  "cache_ok ex_ds fresh \<and> distinct (map m_movieId (movies ex_ds)) \<and>
   target_events (ratings ex_ds) 10 \<noteq> [] \<and>
   length (fst (recommendation fresh ex_ds 10)) \<le> 10 \<and>
   sorted_wrt (\<lambda>a b. score a \<ge> score b) (fst (recommendation fresh ex_ds 10)) \<and>
   distinct (map movieId (fst (recommendation fresh ex_ds 10)))"
proof -
  have h1: "cache_ok ex_ds fresh" by (rule cache_ok_fresh)
  have h2: "distinct (map m_movieId (movies ex_ds))" by code_simp
  have h3: "target_events (ratings ex_ds) 10 \<noteq> []" by code_simp
  show ?thesis
    using h1 h2 h3 recommendation_top10_sorted_distinct[OF h1 h2 h3] by simp
qed

text \<open>
  C7. \<^verbatim>\<open>recommendation\<close> returns a frame on every input: whatever error
  its \<^verbatim>\<open>try\<close> block raises, on whatever store, the frame returned is empty;
  and when any of the three reads is unavailable, a call on a store that agrees
  with the snapshot returns the empty frame.
\<close>

theorem recommendation_never_raises:
  "(fst (recommendation_try c ds m) = Inl e \<longrightarrow> fst (recommendation c ds m) = []) \<and>
   (cache_ok ds c \<and> unavailable ds q \<longrightarrow> fst (recommendation c ds m) = [])"
proof (intro conjI impI)
  assume "fst (recommendation_try c ds m) = Inl e"
  then show "fst (recommendation c ds m) = []"
    by (cases "recommendation_try c ds m") (simp add: recommendation_def)
next
  assume a: "cache_ok ds c \<and> unavailable ds q"
  then have ok: "cache_ok ds c" and un: "unavailable ds q" by simp_all
  show "fst (recommendation c ds m) = []"
    unfolding recommendation_fst[OF ok]
    by (rule recommendation_of_failed_read[OF unavailable_read_fails[OF un]])
qed

theorem recommendation_never_raises_witness:
  "fst (recommendation_try fresh ex_down 10) = Inl AttributeError \<and>
   cache_ok ex_down fresh \<and> unavailable ex_down Q_all_user_recs \<and>
   fst (recommendation fresh ex_down 10) = []"
proof -
  have h1: "fst (recommendation_try fresh ex_down 10) = Inl AttributeError" by code_simp
  have h2: "cache_ok ex_down fresh" by (rule cache_ok_fresh)
  have h3: "unavailable ex_down Q_all_user_recs" by (simp add: ex_down_def unavailable_def)
  show ?thesis
    using h1 h2 h3 recommendation_never_raises[of fresh ex_down 10 AttributeError Q_all_user_recs]
    by simp
qed

lemma recommendation_try_no_error:
  assumes "cache_ok ds c" and "\<forall>q. \<not> unavailable ds q"
  shows "\<exists>rows. fst (recommendation_try c ds m) = Inr rows"
proof -
  obtain sur where sur: "get_similar_recs ds m = Inr (Some sur)"
    using assms(2) by (simp add: get_similar_recs_def execute_query_executes similar_recs_sql_eq)
  obtain au where au: "get_all_user_recs ds m = Inr (Some au)"
    using assms(2) all_user_recs_sql_total[of "ratings ds" m]
    by (auto simp: get_all_user_recs_def execute_query_executes)
  have mv: "get_movies ds = Inr (Some (movies ds))"
    using assms(2) by (simp add: get_movies_def execute_query_executes)
  from recommendation_try_ok[OF assms(1), of m] show ?thesis
    by (auto simp: sur au mv recommendation_of_def)
qed

text \<open>
  C8. A movieId with no row in the movie table occurs in no row of the frame
  \<^verbatim>\<open>recommendation\<close> returns; every row returned carries the title and genres
  of a movie row with its movieId; and when every read executes the
  \<^verbatim>\<open>try\<close> block ends without an error, whichever movies lack a title.
\<close>

theorem recommendation_drops_untitled:
  assumes "cache_ok ds c" and "k \<notin> m_movieId ` set (movies ds)"
  shows "k \<notin> movieId ` set (fst (recommendation c ds m)) \<and>
         (\<forall>row \<in> set (fst (recommendation c ds m)). \<exists>mv \<in> set (movies ds).
            m_movieId mv = movieId row \<and> m_title mv = title row \<and> m_genres mv = genres row) \<and>
         ((\<forall>q. \<not> unavailable ds q) \<longrightarrow> (\<exists>rows. fst (recommendation_try c ds m) = Inr rows))"
proof -
  have titled: "\<exists>mv \<in> set (movies ds).
            m_movieId mv = movieId row \<and> m_title mv = title row \<and> m_genres mv = genres row"
    if "row \<in> set (fst (recommendation c ds m))" for row
  proof -
    from recommendation_shape[OF assms(1), of m] that
    obtain left where "row \<in> set (merge_inner left (movies ds))"
      by force
    then obtain row' mv where "mv \<in> set (movies ds)" "m_movieId mv = movieId row'"
      "row = join_movie row' mv"
      unfolding set_merge_inner by blast
    then show ?thesis
      by (intro bexI[of _ mv]) (simp_all add: join_movie_cols)
  qed
  have "k \<notin> movieId ` set (fst (recommendation c ds m))"
  proof
    assume "k \<in> movieId ` set (fst (recommendation c ds m))"
    then obtain row where "row \<in> set (fst (recommendation c ds m))" "movieId row = k" by auto
    with titled[of row] have "k \<in> m_movieId ` set (movies ds)" by force
    with assms(2) show False by simp
  qed
  with titled recommendation_try_no_error[OF assms(1)] show ?thesis by blast
qed

theorem recommendation_drops_untitled_witness:
  "cache_ok ex_untitled fresh \<and> 20 \<notin> m_movieId ` set (movies ex_untitled) \<and>
   get_similar_recs ex_untitled 10 = Inr (Some ex_similar) \<and>
   get_all_user_recs ex_untitled 10 = Inr (Some ex_all_users) \<and>
   ex_row20 \<in> set (take 10 (combined_recommendations ex_similar ex_all_users)) \<and>
   20 \<notin> movieId ` set (fst (recommendation fresh ex_untitled 10)) \<and>
   (\<exists>rows. fst (recommendation_try fresh ex_untitled 10) = Inr rows)"
proof -
  have h1: "cache_ok ex_untitled fresh" by (rule cache_ok_fresh)
  have h2: "20 \<notin> m_movieId ` set (movies ex_untitled)" by code_simp
  have h3: "get_similar_recs ex_untitled 10 = Inr (Some ex_similar) \<and>
      get_all_user_recs ex_untitled 10 = Inr (Some ex_all_users) \<and>
      ex_row20 \<in> set (take 10 (combined_recommendations ex_similar ex_all_users))" by code_simp
  have h4: "\<forall>q. \<not> unavailable ex_untitled q"
    by (simp add: ex_untitled_def ex_ds_def unavailable_def)
  show ?thesis
    using h1 h2 h3 h4 recommendation_drops_untitled[OF h1 h2, of 10] by blast
qed

text \<open>
  C9. On a fixed snapshot, with a store that agrees with it, a second call of
  \<^verbatim>\<open>recommendation\<close> for the same movie returns the frame the first call
  returned, whichever memoised entries have expired in between.
\<close>

theorem recommendation_repeatable:
  assumes "cache_ok ds c" and "expired (snd (recommendation c ds m)) c'"
  shows "fst (recommendation c' ds m) = fst (recommendation c ds m)"
proof -
  have "cache_ok ds c'"
    by (rule cache_ok_expired[OF recommendation_snd_ok[OF assms(1)] assms(2)])
  then show ?thesis
    by (simp only: recommendation_fst assms(1))
qed

theorem recommendation_repeatable_witness:
  "cache_ok ex_ds fresh \<and>
   expired (snd (recommendation fresh ex_ds 10)) (snd (recommendation fresh ex_ds 10)) \<and>
   fst (recommendation (snd (recommendation fresh ex_ds 10)) ex_ds 10)
     = fst (recommendation fresh ex_ds 10)"
proof -
  have h1: "cache_ok ex_ds fresh" by (rule cache_ok_fresh)
  have h2: "expired (snd (recommendation fresh ex_ds 10)) (snd (recommendation fresh ex_ds 10))"
    by (rule expired_refl)
  show ?thesis
    using h1 h2 recommendation_repeatable[OF h1 h2] by simp
qed

end
